theory Spec2Isabelle
  imports
    Main
    "HOL-Library.Word"
    "HOL-Library.Char_ord"
    "HOL-Library.List_Lexorder"
    "HOL-Library.Sublist"
    "HOL-Library.Multiset"
begin

unbundle bit_operations_syntax

section \<open>Data model\<close>

text \<open>
  The signer of \<^verbatim>\<open>aws-kms-signer.ts\<close> works on FDC3 context objects, which are plain
  JSON-compatible JavaScript values. A value is a tagged union of the JSON variants.
  The type of numbers is a parameter \<open>'n\<close>: the signer never computes with a number, it
  only hands it to the runtime's number printer inside \<^verbatim>\<open>JSON.stringify\<close>.

  A JavaScript string is modelled as a \<open>string\<close>, that is as the list of its code units,
  restricted to code units below 256. An object is the list of its own properties in the
  order \<^verbatim>\<open>Object.keys\<close> enumerates them.
\<close>

type_synonym byte = "8 word"

datatype 'n json =
    JNull
  | JBool bool
  | JNum 'n
  | JStr string
  | JArr "'n json list"
  | JObj "(string \<times> 'n json) list"

text \<open>The interfaces of \<^verbatim>\<open>types.ts\<close>. An optional property is an \<open>option\<close>; a property that
  is present and holds \<^verbatim>\<open>undefined\<close> is \<open>None\<close> as well.\<close>

record credentials =
  accessKeyId :: string
  secretAccessKey :: string
  sessionToken :: "string option"

record AWSKMSSignerConfig =
  keyId :: string
  region :: "string option"
  credentials :: "credentials option"

record 'n SignedContext =
  sc_context :: "'n json"
  sc_signature :: string
  sc_keyId :: string
  sc_timestamp :: int
  sc_algorithm :: string

record 'n VerificationResult =
  isValid :: bool
  error :: "string option"
  vr_context :: "'n json option"

text \<open>
  A thrown JavaScript value. Both \<^verbatim>\<open>catch\<close> blocks of the signer read it through
  \<^verbatim>\<open>error instanceof Error ? error.message : String(error)\<close>: an \<open>ErrorObject\<close> carries its
  message, any other thrown value carries the text \<^verbatim>\<open>String\<close> gives for it.
\<close>

datatype thrown = ErrorObject string | NonError string

fun error_text :: "thrown \<Rightarrow> string" where
  "error_text (ErrorObject m) = m"
| "error_text (NonError s) = s"

section \<open>JavaScript objects: own property order\<close>

text \<open>
  An ordinary object enumerates its own string keys in two groups: first the keys that
  are array indices (canonical decimal numerals up to \<open>2^32 - 2\<close>) in ascending numeric
  order, then every other key in the order of its creation.
\<close>

definition is_digit :: "char \<Rightarrow> bool" where
  "is_digit c \<longleftrightarrow> CHR ''0'' \<le> c \<and> c \<le> CHR ''9''"

definition index_value :: "string \<Rightarrow> nat" where
  "index_value k = fold (\<lambda>c n. 10 * n + (of_char c - 48)) k 0"

definition is_array_index :: "string \<Rightarrow> bool" where
  "is_array_index k \<longleftrightarrow>
     k \<noteq> [] \<and> list_all is_digit k \<and> (k = ''0'' \<or> hd k \<noteq> CHR ''0'') \<and>
     index_value k \<le> 4294967294"

text \<open>Creating a new own property: an array index goes to its numeric place among the
  array indices, any other key goes to the end.\<close>

fun insert_index :: "string \<Rightarrow> 'v \<Rightarrow> (string \<times> 'v) list \<Rightarrow> (string \<times> 'v) list" where
  "insert_index k v [] = [(k, v)]"
| "insert_index k v (p # ps) =
     (if is_array_index (fst p) \<and> index_value (fst p) < index_value k
      then p # insert_index k v ps
      else (k, v) # p # ps)"

fun replace_value :: "string \<Rightarrow> 'v \<Rightarrow> (string \<times> 'v) list \<Rightarrow> (string \<times> 'v) list" where
  "replace_value k v [] = []"
| "replace_value k v (p # ps) =
     (if fst p = k then (k, v) # ps else p # replace_value k v ps)"

text \<open>
  The assignment \<^verbatim>\<open>sorted[key] = value\<close> on an object created by the literal \<^verbatim>\<open>{}\<close>.
  The key \<^verbatim>\<open>__proto__\<close> reaches the accessor inherited from \<^verbatim>\<open>Object.prototype\<close> and
  creates no own property. An existing own property keeps its place.
\<close>

definition obj_set :: "string \<Rightarrow> 'v \<Rightarrow> (string \<times> 'v) list \<Rightarrow> (string \<times> 'v) list" where
  "obj_set k v ps =
     (if k = ''__proto__'' then ps
      else if k \<in> set (map fst ps) then replace_value k v ps
      else if is_array_index k then insert_index k v ps
      else ps @ [(k, v)])"

section \<open>The canonicalizer\<close>

text \<open>
  \<^verbatim>\<open>sortKeys\<close> of \<^verbatim>\<open>canonicalizeContext\<close>: null and scalars are returned as they are, an
  array is mapped, and for an object the keys \<^verbatim>\<open>Object.keys(obj).sort()\<close> are assigned one
  after the other to a fresh object. \<^verbatim>\<open>obj[key]\<close> is the value of the first property
  named \<open>key\<close>; the keys come from the object itself, so the lookup always finds one.
\<close>

function sortKeys :: "'n json \<Rightarrow> 'n json" where
  "sortKeys JNull = JNull"
| "sortKeys (JBool b) = JBool b"
| "sortKeys (JNum n) = JNum n"
| "sortKeys (JStr s) = JStr s"
| "sortKeys (JArr xs) = JArr (map sortKeys xs)"
| "sortKeys (JObj kvs) =
     JObj (fold (\<lambda>key sorted.
                   case map_of kvs key of
                     None \<Rightarrow> sorted
                   | Some v \<Rightarrow> obj_set key (sortKeys v) sorted)
                (sort (map fst kvs)) [])"
  by pat_completeness auto

termination
proof (relation "measure size")
  show "wf (measure size)" by simp
next
  fix xs :: "'n json list" and x
  assume "x \<in> set xs"
  then have "size x < Suc (size_list size xs)"
    by (induction xs) auto
  then show "(x, JArr xs) \<in> measure size" by simp
next
  fix kvs :: "(string \<times> 'n json) list" and key :: string and sorted :: "(string \<times> 'n json) list" and v
  assume "map_of kvs key = Some v"
  then have "(key, v) \<in> set kvs" by (rule map_of_SomeD)
  then have "size v < Suc (size_list (size_prod (\<lambda>_. 0) size) kvs)"
    by (induction kvs) auto
  then show "(v, JObj kvs) \<in> measure size" by simp
qed

text \<open>
  \<^verbatim>\<open>JSON.stringify\<close> on the values of the data model. A string is quoted with the escapes
  of the language standard: two-character escapes for backspace, tab, line feed, form
  feed, carriage return, the double quote and the backslash, a \<^verbatim>\<open>\u00XX\<close> escape for every
  other control character. A number is printed by the runtime's number printer \<open>num\<close>.
  Members are separated by commas, with no white space.
\<close>

definition hex_digit :: "nat \<Rightarrow> char" where
  "hex_digit n = ''0123456789abcdef'' ! n"

definition quote_json_char :: "char \<Rightarrow> string" where
  "quote_json_char c =
     (if c = CHR 0x08 then [CHR 0x5C, CHR ''b'']
      else if c = CHR 0x09 then [CHR 0x5C, CHR ''t'']
      else if c = CHR 0x0A then [CHR 0x5C, CHR ''n'']
      else if c = CHR 0x0C then [CHR 0x5C, CHR ''f'']
      else if c = CHR 0x0D then [CHR 0x5C, CHR ''r'']
      else if c = CHR 0x22 then [CHR 0x5C, CHR 0x22]
      else if c = CHR 0x5C then [CHR 0x5C, CHR 0x5C]
      else if (of_char c :: nat) < 32
        then [CHR 0x5C, CHR ''u'', CHR ''0'', CHR ''0'',
              hex_digit (of_char c div 16), hex_digit (of_char c mod 16)]
      else [c])"

definition QuoteJSONString :: "string \<Rightarrow> string" where
  "QuoteJSONString s = CHR 0x22 # concat (map quote_json_char s) @ [CHR 0x22]"

fun join :: "string \<Rightarrow> string list \<Rightarrow> string" where
  "join sep [] = []"
| "join sep [x] = x"
| "join sep (x # y # ys) = x @ sep @ join sep (y # ys)"

fun JSON_stringify :: "('n \<Rightarrow> string) \<Rightarrow> 'n json \<Rightarrow> string" where
  "JSON_stringify num JNull = ''null''"
| "JSON_stringify num (JBool b) = (if b then ''true'' else ''false'')"
| "JSON_stringify num (JNum n) = num n"
| "JSON_stringify num (JStr s) = QuoteJSONString s"
| "JSON_stringify num (JArr xs) = ''['' @ join '','' (map (JSON_stringify num) xs) @ '']''"
| "JSON_stringify num (JObj kvs) =
     ''{'' @ join '','' (map (\<lambda>(k, v). QuoteJSONString k @ '':'' @ JSON_stringify num v) kvs)
       @ ''}''"

definition canonicalizeContext :: "('n \<Rightarrow> string) \<Rightarrow> 'n json \<Rightarrow> string" where
  "canonicalizeContext num ctx = JSON_stringify num (sortKeys ctx)"

section \<open>Buffers: UTF-8 and base64\<close>

text \<open>\<^verbatim>\<open>Buffer.from(s, 'utf8')\<close> on code units below 256: one byte below 128, two bytes above.\<close>

definition utf8_char :: "char \<Rightarrow> byte list" where
  "utf8_char c =
     (let n = (of_char c :: nat)
      in if n < 128 then [of_nat n] else [of_nat (192 + n div 64), of_nat (128 + n mod 64)])"

definition utf8_encode :: "string \<Rightarrow> byte list" where
  "utf8_encode s = concat (map utf8_char s)"

definition base64_table :: string where
  "base64_table = ''ABCDEFGHIJKLMNOPQRSTUVWXYZabcdefghijklmnopqrstuvwxyz0123456789+/''"

definition b64 :: "byte \<Rightarrow> char" where
  "b64 x = base64_table ! unat x"

text \<open>\<^verbatim>\<open>buf.toString('base64')\<close>: three bytes give four characters, a rest of one or two
  bytes is padded with \<^verbatim>\<open>=\<close>.\<close>

fun base64_encode :: "byte list \<Rightarrow> string" where
  "base64_encode (a # b # c # rest) =
     [b64 (drop_bit 2 a),
      b64 (push_bit 4 (a AND 3) OR drop_bit 4 b),
      b64 (push_bit 2 (b AND 15) OR drop_bit 6 c),
      b64 (c AND 63)] @ base64_encode rest"
| "base64_encode [a, b] =
     [b64 (drop_bit 2 a),
      b64 (push_bit 4 (a AND 3) OR drop_bit 4 b),
      b64 (push_bit 2 (b AND 15)),
      CHR ''='']"
| "base64_encode [a] =
     [b64 (drop_bit 2 a), b64 (push_bit 4 (a AND 3)), CHR ''='', CHR ''='']"
| "base64_encode [] = []"

text \<open>
  \<^verbatim>\<open>Buffer.from(s, 'base64')\<close> never throws on a string: it reads up to the first \<^verbatim>\<open>=\<close>,
  skips every character outside the alphabet (the URL-safe \<^verbatim>\<open>-\<close> and \<^verbatim>\<open>_\<close> count as
  62 and 63) and turns each group of four sextets into three bytes.
\<close>

fun index_of :: "'a \<Rightarrow> 'a list \<Rightarrow> nat option" where
  "index_of x [] = None"
| "index_of x (y # ys) = (if x = y then Some 0 else map_option Suc (index_of x ys))"

definition unbase64 :: "char \<Rightarrow> byte option" where
  "unbase64 c =
     (if c = CHR ''-'' then Some 62
      else if c = CHR ''_'' then Some 63
      else map_option of_nat (index_of c base64_table))"

fun decode_sextets :: "byte list \<Rightarrow> byte list" where
  "decode_sextets (a # b # c # d # rest) =
     [push_bit 2 a OR drop_bit 4 b,
      push_bit 4 (b AND 15) OR drop_bit 2 c,
      push_bit 6 (c AND 3) OR d] @ decode_sextets rest"
| "decode_sextets [a, b, c] =
     [push_bit 2 a OR drop_bit 4 b, push_bit 4 (b AND 15) OR drop_bit 2 c]"
| "decode_sextets [a, b] = [push_bit 2 a OR drop_bit 4 b]"
| "decode_sextets [a] = []"
| "decode_sextets [] = []"

definition base64_decode :: "string \<Rightarrow> byte list" where
  "base64_decode s =
     decode_sextets (List.map_filter unbase64 (takeWhile (\<lambda>c. c \<noteq> CHR ''='') s))"

section \<open>Key-format conversion and algorithm mapping\<close>

text \<open>
  \<^verbatim>\<open>base64.match(/.{1,64}/g)\<close>: the dot matches every character but a line terminator,
  and each match takes as many characters as it can, up to 64. The list of all matches
  is empty where JavaScript gives \<^verbatim>\<open>null\<close>.
\<close>

definition is_line_terminator :: "char \<Rightarrow> bool" where
  "is_line_terminator c \<longleftrightarrow> c = CHR 0x0A \<or> c = CHR 0x0D"

function match_lines :: "string \<Rightarrow> string list" where
  "match_lines [] = []"
| "match_lines (c # cs) =
     (if is_line_terminator c then match_lines cs
      else (let m = take 64 (takeWhile (\<lambda>x. \<not> is_line_terminator x) (c # cs))
            in m # match_lines (drop (length m) (c # cs))))"
  by pat_completeness auto

termination
proof (relation "measure length")
  show "wf (measure length)" by simp
next
  fix c :: char and cs :: string
  show "(cs, c # cs) \<in> measure length" by simp
next
  fix c :: char and cs :: string and m :: string
  assume nt: "\<not> is_line_terminator c"
    and m: "m = take 64 (takeWhile (\<lambda>x. \<not> is_line_terminator x) (c # cs))"
  from nt m have "0 < length m" by simp
  then show "(drop (length m) (c # cs), c # cs) \<in> measure length" by simp
qed

declare match_lines.simps [simp del]

definition derToPem :: "byte list \<Rightarrow> string" where
  "derToPem derBuffer =
     (let base64 = base64_encode derBuffer;
          matches = match_lines base64;
          joined = (if matches = [] then [] else join [CHR 0x0A] matches);
          pem = (if joined = [] then base64 else joined)
      in ''-----BEGIN PUBLIC KEY-----'' @ [CHR 0x0A] @ pem @ [CHR 0x0A]
           @ ''-----END PUBLIC KEY-----'')"

definition getNodeAlgorithm :: "string \<Rightarrow> thrown + string" where
  "getNodeAlgorithm kmsAlgorithm =
     (if kmsAlgorithm = ''RSASSA_PKCS1_V1_5_SHA_256'' then Inr ''RSA-SHA256''
      else if kmsAlgorithm = ''ECDSA_SHA_256'' then Inr ''sha256''
      else Inl (ErrorObject (''Unsupported algorithm: '' @ kmsAlgorithm)))"

section \<open>The signer\<close>

text \<open>
  What the signer calls and does not implement is a parameter: the answers of the key
  service to \<^verbatim>\<open>SignCommand\<close> (key identifier, message, algorithm; the message type is
  always RAW) and to \<^verbatim>\<open>GetPublicKeyCommand\<close> (key identifier), each either a thrown value
  or a response whose \<^verbatim>\<open>Signature\<close> or \<^verbatim>\<open>PublicKey\<close> may be missing; the verifier of the
  \<^verbatim>\<open>crypto\<close> module (digest name, message, PEM key, signature), which throws or answers
  with a boolean; the clock; and the number printer of \<^verbatim>\<open>JSON.stringify\<close>.
\<close>

record 'n runtime =
  kms_sign :: "string \<Rightarrow> byte list \<Rightarrow> string \<Rightarrow> thrown + byte list option"
  kms_get_public_key :: "string \<Rightarrow> thrown + byte list option"
  crypto_verify :: "string \<Rightarrow> byte list \<Rightarrow> string \<Rightarrow> byte list \<Rightarrow> thrown + bool"
  date_now :: int
  number_to_string :: "'n \<Rightarrow> string"

definition default_algorithm :: string where
  "default_algorithm = ''RSASSA_PKCS1_V1_5_SHA_256''"

text \<open>The \<^verbatim>\<open>try\<close> block of \<^verbatim>\<open>sign\<close>; \<open>Inl\<close> is a value thrown inside it.\<close>

definition sign_try ::
  "'n runtime \<Rightarrow> AWSKMSSignerConfig \<Rightarrow> 'n json \<Rightarrow> string \<Rightarrow> thrown + 'n SignedContext" where
  "sign_try rt config ctx algorithm =
     (let contextString = canonicalizeContext (number_to_string rt) ctx;
          message = utf8_encode contextString
      in case kms_sign rt (keyId config) message algorithm of
           Inl e \<Rightarrow> Inl e
         | Inr None \<Rightarrow> Inl (ErrorObject ''KMS signing failed: No signature returned'')
         | Inr (Some sg) \<Rightarrow>
             Inr \<lparr>sc_context = ctx,
                  sc_signature = base64_encode sg,
                  sc_keyId = keyId config,
                  sc_timestamp = date_now rt,
                  sc_algorithm = algorithm\<rparr>)"

text \<open>\<^verbatim>\<open>sign\<close>: the algorithm is an optional argument with a default; whatever the
  \<^verbatim>\<open>try\<close> block throws is thrown again as a new \<^verbatim>\<open>Error\<close>.\<close>

definition algorithm_or_default :: "string option \<Rightarrow> string" where
  "algorithm_or_default algorithm =
     (case algorithm of None \<Rightarrow> default_algorithm | Some a \<Rightarrow> a)"

definition sign ::
  "'n runtime \<Rightarrow> AWSKMSSignerConfig \<Rightarrow> 'n json \<Rightarrow> string option \<Rightarrow> thrown + 'n SignedContext" where
  "sign rt config ctx algorithm =
     (case sign_try rt config ctx (algorithm_or_default algorithm) of
        Inl e \<Rightarrow> Inl (ErrorObject (''Failed to sign FDC3 context: '' @ error_text e))
      | Inr signedContext \<Rightarrow> Inr signedContext)"

text \<open>The \<^verbatim>\<open>try\<close> block of \<^verbatim>\<open>verify\<close>.\<close>

definition verify_try :: "'n runtime \<Rightarrow> 'n SignedContext \<Rightarrow> thrown + 'n VerificationResult" where
  "verify_try rt signedContext =
     (case kms_get_public_key rt (sc_keyId signedContext) of
        Inl e \<Rightarrow> Inl e
      | Inr None \<Rightarrow>
          Inr \<lparr>isValid = False,
               error = Some ''Could not retrieve public key from KMS'',
               vr_context = None\<rparr>
      | Inr (Some publicKey) \<Rightarrow>
          (let contextString = canonicalizeContext (number_to_string rt) (sc_context signedContext);
               message = utf8_encode contextString;
               signature = base64_decode (sc_signature signedContext);
               publicKeyPem = derToPem publicKey
           in case getNodeAlgorithm (sc_algorithm signedContext) of
                Inl e \<Rightarrow> Inl e
              | Inr nodeAlgorithm \<Rightarrow>
                  (case crypto_verify rt nodeAlgorithm message publicKeyPem signature of
                     Inl e \<Rightarrow> Inl e
                   | Inr valid \<Rightarrow>
                       Inr \<lparr>isValid = valid,
                            error = (if valid then None else Some ''Signature verification failed''),
                            vr_context = (if valid then Some (sc_context signedContext) else None)\<rparr>)))"

text \<open>\<^verbatim>\<open>verify\<close>: the \<^verbatim>\<open>catch\<close> block turns every thrown value into a result. The type
  keeps the \<open>Inl\<close> side, so that "never throws" is a statement to prove.\<close>

definition verify :: "'n runtime \<Rightarrow> 'n SignedContext \<Rightarrow> thrown + 'n VerificationResult" where
  "verify rt signedContext =
     (case verify_try rt signedContext of
        Inl e \<Rightarrow>
          Inr \<lparr>isValid = False,
               error = Some (''Verification error: '' @ error_text e),
               vr_context = None\<rparr>
      | Inr result \<Rightarrow> Inr result)"

section \<open>Properties of structured objects\<close>

text \<open>
  A JavaScript object has no two properties of the same name: \<open>distinct_keys\<close> says so
  for every object inside a value.
\<close>

fun distinct_keys :: "'n json \<Rightarrow> bool" where
  "distinct_keys (JArr xs) = list_all distinct_keys xs"
| "distinct_keys (JObj kvs) =
     (distinct (map fst kvs) \<and> list_all (\<lambda>p. distinct_keys (snd p)) kvs)"
| "distinct_keys _ = True"

text \<open>
  \<open>key_permuted o o'\<close>: \<open>o'\<close> is \<open>o\<close> with the properties of any of its objects, at any
  depth, put in another order. Arrays keep the order of their elements.
\<close>

inductive key_permuted :: "'n json \<Rightarrow> 'n json \<Rightarrow> bool" where
  Null: "key_permuted JNull JNull"
| Bool: "key_permuted (JBool b) (JBool b)"
| Num: "key_permuted (JNum n) (JNum n)"
| Str: "key_permuted (JStr s) (JStr s)"
| Arr: "list_all2 key_permuted xs ys \<Longrightarrow> key_permuted (JArr xs) (JArr ys)"
| Obj: "list_all2 (\<lambda>p q. fst p = fst q \<and> key_permuted (snd p) (snd q)) kvs mid \<Longrightarrow>
        mset mid = mset kvs' \<Longrightarrow> key_permuted (JObj kvs) (JObj kvs')"

text \<open>\<open>every_object P v\<close>: the list of keys of every object inside \<open>v\<close>, at every nesting
  level, satisfies \<open>P\<close>.\<close>

fun every_object :: "(string list \<Rightarrow> bool) \<Rightarrow> 'n json \<Rightarrow> bool" where
  "every_object P (JArr xs) = list_all (every_object P) xs"
| "every_object P (JObj kvs) =
     (P (map fst kvs) \<and> list_all (\<lambda>p. every_object P (snd p)) kvs)"
| "every_object P _ = True"

text \<open>Keys in ascending lexicographic order, and keys in the order of an object's own
  properties: the array indices first, by ascending value, then the other keys in
  ascending lexicographic order.\<close>

definition lexicographic_order :: "string list \<Rightarrow> bool" where
  "lexicographic_order ks \<longleftrightarrow> sorted_wrt (<) ks"

definition own_property_order :: "string list \<Rightarrow> bool" where
  "own_property_order ks \<longleftrightarrow>
     sorted_wrt (<) (map index_value (takeWhile is_array_index ks)) \<and>
     list_all (\<lambda>k. \<not> is_array_index k) (dropWhile is_array_index ks) \<and>
     sorted_wrt (<) (dropWhile is_array_index ks)"

definition no_array_index :: "string list \<Rightarrow> bool" where
  "no_array_index ks \<longleftrightarrow> list_all (\<lambda>k. \<not> is_array_index k) ks"

text \<open>The order between two keys of one object, as one relation.\<close>

definition own_key_le :: "string \<Rightarrow> string \<Rightarrow> bool" where
  "own_key_le a b \<longleftrightarrow>
     (if is_array_index a then is_array_index b \<longrightarrow> index_value a \<le> index_value b
      else \<not> is_array_index b \<and> a < b)"

section \<open>A small key service for concrete runs\<close>

text \<open>
  One key is known under \<^verbatim>\<open>alias/fdc3-signing\<close>; \<^verbatim>\<open>alias/pending\<close> answers without key
  material and every other identifier is refused. A signature is accepted when the key
  is the known one and the signature is the one the service gives for the message.
  Numbers are natural numbers, printed in decimal.
\<close>

definition example_key :: "byte list" where
  "example_key = [48, 89, 48, 19, 6, 7, 42, 134, 72, 206]"

definition example_signature :: "byte list \<Rightarrow> byte list" where
  "example_signature m = [of_nat (length m), 251, 17] @ take 2 m"

function decimal :: "nat \<Rightarrow> string" where
  "decimal n =
     (if n < 10 then [char_of (48 + n)] else decimal (n div 10) @ [char_of (48 + n mod 10)])"
  by pat_completeness auto

termination
  by (relation "measure id") auto

declare decimal.simps [simp del]

definition example_runtime :: "nat runtime" where
  "example_runtime =
     \<lparr>kms_sign = (\<lambda>k m a.
          if k = ''alias/fdc3-signing'' then Inr (Some (example_signature m))
          else if k = ''alias/pending'' then Inr None
          else Inl (ErrorObject ''Alias is not found'')),
      kms_get_public_key = (\<lambda>k.
          if k = ''alias/fdc3-signing'' then Inr (Some example_key)
          else if k = ''alias/pending'' then Inr None
          else Inl (ErrorObject ''Alias is not found'')),
      crypto_verify = (\<lambda>alg m pem sg.
          if pem = derToPem example_key then Inr (sg = example_signature m)
          else Inl (NonError ''unsupported key format'')),
      date_now = 1700000000000,
      number_to_string = decimal\<rparr>"

definition example_config :: AWSKMSSignerConfig where
  "example_config = \<lparr>keyId = ''alias/fdc3-signing'', region = None, credentials = None\<rparr>"

definition example_context :: "nat json" where
  "example_context =
     JObj [(''type'', JStr ''fdc3.instrument''), (''id'', JObj [(''ticker'', JStr ''AAPL'')])]"

definition example_envelope :: "string \<Rightarrow> string \<Rightarrow> nat SignedContext" where
  "example_envelope k a =
     \<lparr>sc_context = example_context, sc_signature = ''AQID'', sc_keyId = k,
      sc_timestamp = 1700000000000, sc_algorithm = a\<rparr>"

section \<open>Base64: decoding undoes encoding\<close>

text \<open>The masks of the encoder, and the bit-level identities between the three bytes of
  a group and its four sextets.\<close>

lemma three_mask: "(3::byte) = mask 2"
  by (simp add: mask_eq_exp_minus_1)

lemma fifteen_mask: "(15::byte) = mask 4"
  by (simp add: mask_eq_exp_minus_1)

lemma sixty_three_mask: "(63::byte) = mask 6"
  by (simp add: mask_eq_exp_minus_1)

lemma suc_suc_diff: "Suc (Suc (n - 2)) = max n 2"
  by arith

lemma four_plus_diff: "4 + (n - 4) = max n (4::nat)"
  by arith

lemma six_plus_diff: "6 + (n - 6) = max n (6::nat)"
  by arith

lemmas bit_shifts = bit_simps suc_suc_diff four_plus_diff six_plus_diff max_def

lemma bytes_first:
  "push_bit 2 (drop_bit 2 a) OR drop_bit 4 (push_bit 4 (a AND 3) OR drop_bit 4 b) = (a::byte)"
  unfolding three_mask
  by (rule bit_word_eqI) (auto simp: bit_shifts split: if_splits)

lemma bytes_second:
  "push_bit 4 ((push_bit 4 (a AND 3) OR drop_bit 4 b) AND 15)
     OR drop_bit 2 (push_bit 2 (b AND 15) OR drop_bit 6 c) = (b::byte)"
  unfolding three_mask fifteen_mask
  by (rule bit_word_eqI) (auto simp: bit_shifts split: if_splits)

lemma bytes_third:
  "push_bit 6 ((push_bit 2 (b AND 15) OR drop_bit 6 c) AND 3) OR (c AND 63) = (c::byte)"
  unfolding three_mask fifteen_mask sixty_three_mask
  by (rule bit_word_eqI) (auto simp: bit_shifts split: if_splits)

lemma bytes_first_padded:
  "push_bit 2 (drop_bit 2 a) OR drop_bit 4 (push_bit 4 (a AND 3)) = (a::byte)"
  unfolding three_mask
  by (rule bit_word_eqI) (auto simp: bit_shifts split: if_splits)

lemma bytes_second_padded:
  "push_bit 4 ((push_bit 4 (a AND 3) OR drop_bit 4 b) AND 15)
     OR drop_bit 2 (push_bit 2 (b AND 15)) = (b::byte)"
  unfolding three_mask fifteen_mask
  by (rule bit_word_eqI) (auto simp: bit_shifts split: if_splits)

text \<open>Each sextet the encoder looks up in the table is below 64.\<close>

lemma sextet_first: "drop_bit 2 (a::byte) AND 63 = drop_bit 2 a"
  unfolding sixty_three_mask
  by (rule bit_word_eqI) (auto simp: bit_shifts dest: bit_imp_le_length split: if_splits)

lemma sextet_second:
  "(push_bit 4 (a AND 3) OR drop_bit 4 b) AND 63 = push_bit 4 (a AND 3) OR drop_bit 4 (b::byte)"
  unfolding three_mask sixty_three_mask
  by (rule bit_word_eqI) (auto simp: bit_shifts dest: bit_imp_le_length split: if_splits)

lemma sextet_third:
  "(push_bit 2 (b AND 15) OR drop_bit 6 c) AND 63 = push_bit 2 (b AND 15) OR drop_bit 6 (c::byte)"
  unfolding fifteen_mask sixty_three_mask
  by (rule bit_word_eqI) (auto simp: bit_shifts dest: bit_imp_le_length split: if_splits)

lemma sextet_fourth: "(c AND 63) AND 63 = c AND (63::byte)"
  by simp

lemma sextet_third_padded: "push_bit 2 (b AND 15) AND 63 = push_bit 2 ((b::byte) AND 15)"
  unfolding fifteen_mask sixty_three_mask
  by (rule bit_word_eqI) (auto simp: bit_shifts dest: bit_imp_le_length split: if_splits)

lemma sextet_second_padded: "push_bit 4 (a AND 3) AND 63 = push_bit 4 ((a::byte) AND 3)"
  unfolding three_mask sixty_three_mask
  by (rule bit_word_eqI) (auto simp: bit_shifts dest: bit_imp_le_length split: if_splits)

lemma sextet_less_64: "x AND 63 = x \<Longrightarrow> unat (x::byte) < 64"
proof -
  assume "x AND 63 = x"
  then have "x = take_bit 6 x" by (simp add: sixty_three_mask take_bit_eq_mask)
  then have "unat x = unat (take_bit 6 x)" by simp
  also have "\<dots> < 64"
    using take_bit_nat_less_exp [of 6 "unat x"] by (simp add: unsigned_take_bit_eq)
  finally show ?thesis by simp
qed

text \<open>The table has 64 entries, none is \<^verbatim>\<open>=\<close> or a line terminator, and the decoder finds
  each of them at its own index.\<close>

lemma base64_table_entries:
  "list_all (\<lambda>n. unbase64 (base64_table ! n) = Some (of_nat n) \<and>
                 base64_table ! n \<noteq> CHR ''='' \<and>
                 \<not> is_line_terminator (base64_table ! n)) [0..<64]"
  by code_simp


lemma b64_ok:
  assumes "x AND 63 = x"
  shows "unbase64 (b64 x) = Some x" and "b64 x \<noteq> CHR ''=''" and "\<not> is_line_terminator (b64 x)"
proof -
  from assms have "unat x < 64" by (rule sextet_less_64)
  then have "unat x \<in> set [0..<64]" by simp
  with base64_table_entries have "unbase64 (base64_table ! unat x) = Some (of_nat (unat x)) \<and>
      base64_table ! unat x \<noteq> CHR ''='' \<and> \<not> is_line_terminator (base64_table ! unat x)"
    unfolding list_all_iff by blast
  then show "unbase64 (b64 x) = Some x" and "b64 x \<noteq> CHR ''=''" and "\<not> is_line_terminator (b64 x)"
    by (simp_all add: b64_def)
qed

lemma base64_decode_four:
  assumes "unbase64 p = Some w" "unbase64 q = Some x" "unbase64 r = Some y" "unbase64 t = Some z"
    and "p \<noteq> CHR ''=''" "q \<noteq> CHR ''=''" "r \<noteq> CHR ''=''" "t \<noteq> CHR ''=''"
  shows "base64_decode ([p, q, r, t] @ cs) =
         [push_bit 2 w OR drop_bit 4 x, push_bit 4 (x AND 15) OR drop_bit 2 y, push_bit 6 (y AND 3) OR z]
           @ base64_decode cs"
  using assms by (simp add: base64_decode_def)

lemma base64_decode_three:
  assumes "unbase64 p = Some w" "unbase64 q = Some x" "unbase64 r = Some y"
    and "p \<noteq> CHR ''=''" "q \<noteq> CHR ''=''" "r \<noteq> CHR ''=''"
  shows "base64_decode [p, q, r, CHR ''=''] =
         [push_bit 2 w OR drop_bit 4 x, push_bit 4 (x AND 15) OR drop_bit 2 y]"
  using assms by (simp add: base64_decode_def)

lemma base64_decode_two:
  assumes "unbase64 p = Some w" "unbase64 q = Some x"
    and "p \<noteq> CHR ''=''" "q \<noteq> CHR ''=''"
  shows "base64_decode [p, q, CHR ''='', CHR ''=''] = [push_bit 2 w OR drop_bit 4 x]"
  using assms by (simp add: base64_decode_def)

lemma base64_round_trip: "base64_decode (base64_encode bs) = bs"
proof (induction bs rule: base64_encode.induct)
  case (1 a b c rest)
  have "base64_decode (base64_encode (a # b # c # rest)) =
        [push_bit 2 (drop_bit 2 a) OR drop_bit 4 (push_bit 4 (a AND 3) OR drop_bit 4 b),
         push_bit 4 ((push_bit 4 (a AND 3) OR drop_bit 4 b) AND 15)
           OR drop_bit 2 (push_bit 2 (b AND 15) OR drop_bit 6 c),
         push_bit 6 ((push_bit 2 (b AND 15) OR drop_bit 6 c) AND 3) OR (c AND 63)]
        @ base64_decode (base64_encode rest)"
    unfolding base64_encode.simps
    by (rule base64_decode_four) (rule b64_ok sextet_first sextet_second sextet_third sextet_fourth)+
  then show ?case
    unfolding bytes_first bytes_second bytes_third "1.IH" by simp
next
  case (2 a b)
  have "base64_decode (base64_encode [a, b]) =
        [push_bit 2 (drop_bit 2 a) OR drop_bit 4 (push_bit 4 (a AND 3) OR drop_bit 4 b),
         push_bit 4 ((push_bit 4 (a AND 3) OR drop_bit 4 b) AND 15)
           OR drop_bit 2 (push_bit 2 (b AND 15))]"
    unfolding base64_encode.simps
    by (rule base64_decode_three) (rule b64_ok sextet_first sextet_second sextet_third_padded)+
  then show ?case
    unfolding bytes_first bytes_second_padded .
next
  case (3 a)
  have "base64_decode (base64_encode [a]) =
        [push_bit 2 (drop_bit 2 a) OR drop_bit 4 (push_bit 4 (a AND 3))]"
    unfolding base64_encode.simps
    by (rule base64_decode_two) (rule b64_ok sextet_first sextet_second_padded)+
  then show ?case
    unfolding bytes_first_padded .
next
  case 4
  show ?case by (simp add: base64_decode_def)
qed

lemma base64_encode_no_newline: "c \<in> set (base64_encode bs) \<Longrightarrow> \<not> is_line_terminator c"
proof (induction bs rule: base64_encode.induct)
  case (1 a b c' rest)
  from "1.prems" have "c \<in> {b64 (drop_bit 2 a), b64 (push_bit 4 (a AND 3) OR drop_bit 4 b),
      b64 (push_bit 2 (b AND 15) OR drop_bit 6 c'), b64 (c' AND 63)} \<or> c \<in> set (base64_encode rest)"
    unfolding base64_encode.simps by auto
  then show ?case
    using "1.IH" b64_ok(3) [OF sextet_first] b64_ok(3) [OF sextet_second] b64_ok(3) [OF sextet_third] b64_ok(3) [OF sextet_fourth] by blast
next
  case (2 a b)
  from "2.prems" have "c \<in> {b64 (drop_bit 2 a), b64 (push_bit 4 (a AND 3) OR drop_bit 4 b),
      b64 (push_bit 2 (b AND 15)), CHR ''=''}"
    unfolding base64_encode.simps by auto
  moreover have "\<not> is_line_terminator CHR ''=''" by (simp add: is_line_terminator_def)
  ultimately show ?case
    using b64_ok(3) [OF sextet_first] b64_ok(3) [OF sextet_second] b64_ok(3) [OF sextet_third_padded] by blast
next
  case (3 a)
  from "3.prems" have "c \<in> {b64 (drop_bit 2 a), b64 (push_bit 4 (a AND 3)), CHR ''=''}"
    unfolding base64_encode.simps by auto
  moreover have "\<not> is_line_terminator CHR ''=''" by (simp add: is_line_terminator_def)
  ultimately show ?case
    using b64_ok(3) [OF sextet_first] b64_ok(3) [OF sextet_second_padded] by blast
next
  case 4
  then show ?case by simp
qed


section \<open>Verification always answers\<close>

text \<open>
  Claim C3. \<^verbatim>\<open>verify\<close> never throws: for every runtime and every envelope it returns a
  result. Whatever the \<^verbatim>\<open>try\<close> block throws ends as a result with \<open>isValid = False\<close> whose
  \<open>error\<close> is \<^verbatim>\<open>Verification error:\<close> followed by the message of the thrown value; and
  the \<^verbatim>\<open>try\<close> block throws what the key fetch, the algorithm mapping or the
  cryptographic verification throws. Decoding the base64 signature has no throwing case:
  \<^verbatim>\<open>Buffer.from\<close> skips what it cannot decode.
\<close>

theorem verify_never_throws:
  "(\<exists>r. verify rt sc = Inr r) \<and>
   (\<forall>e. verify_try rt sc = Inl e \<longrightarrow>
      verify rt sc = Inr \<lparr>isValid = False,
                          error = Some (''Verification error: '' @ error_text e),
                          vr_context = None\<rparr>) \<and>
   (\<forall>e. kms_get_public_key rt (sc_keyId sc) = Inl e \<longrightarrow> verify_try rt sc = Inl e) \<and>
   (\<forall>e pk. kms_get_public_key rt (sc_keyId sc) = Inr (Some pk) \<and>
       getNodeAlgorithm (sc_algorithm sc) = Inl e \<longrightarrow> verify_try rt sc = Inl e) \<and>
   (\<forall>e pk alg. kms_get_public_key rt (sc_keyId sc) = Inr (Some pk) \<and>
       getNodeAlgorithm (sc_algorithm sc) = Inr alg \<and>
       crypto_verify rt alg
         (utf8_encode (canonicalizeContext (number_to_string rt) (sc_context sc)))
         (derToPem pk) (base64_decode (sc_signature sc)) = Inl e \<longrightarrow> verify_try rt sc = Inl e)"
  by (auto simp: verify_def verify_try_def Let_def split: sum.splits option.splits)

theorem verify_never_throws_witness:
  "verify example_runtime (example_envelope ''alias/unknown'' ''ECDSA_SHA_256'') =
     Inr \<lparr>isValid = False, error = Some ''Verification error: Alias is not found'',
          vr_context = None\<rparr>"
proof -
  have "kms_get_public_key example_runtime
          (sc_keyId (example_envelope ''alias/unknown'' ''ECDSA_SHA_256'')) =
        Inl (ErrorObject ''Alias is not found'')"
    by (simp add: example_runtime_def example_envelope_def)
  with verify_never_throws [of example_runtime "example_envelope ''alias/unknown'' ''ECDSA_SHA_256''"]
  show ?thesis by simp
qed

text \<open>
  Claim C5. When the key service answers without public key material, \<^verbatim>\<open>verify\<close> returns
  the result \<open>isValid = False\<close> with the error \<^verbatim>\<open>Could not retrieve public key from KMS\<close>
  and does not throw. The result is the same whatever the cryptographic verifier and the
  number printer are and whatever payload, signature and algorithm the envelope holds:
  none of them is consulted on this branch.
\<close>

theorem verify_public_key_unavailable:
  "kms_get_public_key rt (sc_keyId sc) = Inr None \<Longrightarrow>
   verify (rt\<lparr>crypto_verify := cv, number_to_string := ns\<rparr>)
          (sc\<lparr>sc_context := c, sc_signature := s, sc_algorithm := a\<rparr>) =
     Inr \<lparr>isValid = False, error = Some ''Could not retrieve public key from KMS'',
          vr_context = None\<rparr>"
  by (simp add: verify_def verify_try_def)

theorem verify_public_key_unavailable_witness:
  "verify example_runtime (example_envelope ''alias/pending'' ''RSASSA_PKCS1_V1_5_SHA_256'') =
     Inr \<lparr>isValid = False, error = Some ''Could not retrieve public key from KMS'',
          vr_context = None\<rparr>"
proof -
  have h: "kms_get_public_key example_runtime
             (sc_keyId (example_envelope ''alias/pending'' ''RSASSA_PKCS1_V1_5_SHA_256'')) = Inr None"
    by (simp add: example_runtime_def example_envelope_def)
  from verify_public_key_unavailable
         [OF h, where cv = "crypto_verify example_runtime"
            and ns = "number_to_string example_runtime"
            and c = example_context and s = "''AQID''"
            and a = "''RSASSA_PKCS1_V1_5_SHA_256''"]
  show ?thesis by (simp add: example_envelope_def)
qed

text \<open>
  Claim C8. Every result of \<^verbatim>\<open>verify\<close>, on every path, has the context present and equal
  to the envelope's context exactly when \<open>isValid\<close> holds, and has an error exactly when
  \<open>isValid\<close> does not hold.
\<close>

theorem verify_outcome_shape:
  "\<exists>r. verify rt sc = Inr r \<and>
       vr_context r = (if isValid r then Some (sc_context sc) else None) \<and>
       (error r = None) = isValid r"
  by (auto simp: verify_def verify_try_def Let_def split: sum.splits option.splits)

section \<open>Signing is all or nothing\<close>

text \<open>
  Claim C6. When the key service answers without a signature, \<^verbatim>\<open>sign\<close> throws one error
  whose message is \<^verbatim>\<open>Failed to sign FDC3 context: KMS signing failed: No signature returned\<close>;
  when the call to the key service throws, and whenever anything in the \<^verbatim>\<open>try\<close> block
  throws, \<^verbatim>\<open>sign\<close> throws one error whose message ends with the message of the cause. In
  these cases no envelope is returned, and an envelope that is returned has all five
  fields, built from a signature the service did return.
\<close>

theorem sign_all_or_nothing:
  "(kms_sign rt (keyId config)
      (utf8_encode (canonicalizeContext (number_to_string rt) ctx))
      (algorithm_or_default algorithm) = Inr None \<longrightarrow>
    sign rt config ctx algorithm =
      Inl (ErrorObject ''Failed to sign FDC3 context: KMS signing failed: No signature returned'')) \<and>
   (\<forall>e. kms_sign rt (keyId config)
      (utf8_encode (canonicalizeContext (number_to_string rt) ctx))
      (algorithm_or_default algorithm) = Inl e \<longrightarrow>
    sign rt config ctx algorithm =
      Inl (ErrorObject (''Failed to sign FDC3 context: '' @ error_text e))) \<and>
   (\<forall>e. sign_try rt config ctx (algorithm_or_default algorithm) = Inl e \<longrightarrow>
    sign rt config ctx algorithm =
      Inl (ErrorObject (''Failed to sign FDC3 context: '' @ error_text e))) \<and>
   (\<forall>signedContext. sign rt config ctx algorithm = Inr signedContext \<longrightarrow>
      (\<exists>sg. kms_sign rt (keyId config)
              (utf8_encode (canonicalizeContext (number_to_string rt) ctx))
              (algorithm_or_default algorithm) = Inr (Some sg) \<and>
            signedContext =
              \<lparr>sc_context = ctx, sc_signature = base64_encode sg, sc_keyId = keyId config,
               sc_timestamp = date_now rt, sc_algorithm = algorithm_or_default algorithm\<rparr>))"
  by (auto simp: sign_def sign_try_def Let_def split: sum.splits option.splits)

theorem sign_all_or_nothing_witness:
  "sign example_runtime (example_config\<lparr>keyId := ''alias/pending''\<rparr>) example_context None =
     Inl (ErrorObject ''Failed to sign FDC3 context: KMS signing failed: No signature returned'') \<and>
   sign example_runtime (example_config\<lparr>keyId := ''alias/unknown''\<rparr>) example_context None =
     Inl (ErrorObject ''Failed to sign FDC3 context: Alias is not found'')"
proof -
  have a: "kms_sign example_runtime (keyId (example_config\<lparr>keyId := ''alias/pending''\<rparr>)) m a = Inr None" for m a
    by (simp add: example_runtime_def)
  have b: "kms_sign example_runtime (keyId (example_config\<lparr>keyId := ''alias/unknown''\<rparr>)) m a
             = Inl (ErrorObject ''Alias is not found'')" for m a
    by (simp add: example_runtime_def)
  show ?thesis
    using sign_all_or_nothing [of example_runtime "example_config\<lparr>keyId := ''alias/pending''\<rparr>" example_context None]
      sign_all_or_nothing [of example_runtime "example_config\<lparr>keyId := ''alias/unknown''\<rparr>" example_context None]
    unfolding a b by simp
qed

text \<open>
  Claim C10. \<^verbatim>\<open>sign\<close> does not check its algorithm argument: for every algorithm value,
  when the key service returns a signature for it, the envelope records the value as it
  was given; and \<^verbatim>\<open>sign\<close> throws only when the call to the key service throws or returns
  no signature, so never because of the algorithm mapping.
\<close>

theorem sign_forwards_any_algorithm:
  "(\<forall>sg. kms_sign rt (keyId config)
       (utf8_encode (canonicalizeContext (number_to_string rt) ctx)) a = Inr (Some sg) \<longrightarrow>
      sign rt config ctx (Some a) =
        Inr \<lparr>sc_context = ctx, sc_signature = base64_encode sg, sc_keyId = keyId config,
             sc_timestamp = date_now rt, sc_algorithm = a\<rparr>) \<and>
   (\<forall>e. sign rt config ctx (Some a) = Inl e \<longrightarrow>
      kms_sign rt (keyId config)
        (utf8_encode (canonicalizeContext (number_to_string rt) ctx)) a = Inr None \<or>
      (\<exists>e'. kms_sign rt (keyId config)
        (utf8_encode (canonicalizeContext (number_to_string rt) ctx)) a = Inl e'))"
  by (auto simp: sign_def sign_try_def algorithm_or_default_def Let_def split: sum.splits option.splits)

theorem sign_forwards_any_algorithm_witness:
  "getNodeAlgorithm ''RSASSA_PSS_SHA_512'' =
     Inl (ErrorObject ''Unsupported algorithm: RSASSA_PSS_SHA_512'') \<and>
   (\<exists>sg. sign example_runtime example_config example_context (Some ''RSASSA_PSS_SHA_512'') =
     Inr \<lparr>sc_context = example_context, sc_signature = sg,
          sc_keyId = ''alias/fdc3-signing'', sc_timestamp = 1700000000000,
          sc_algorithm = ''RSASSA_PSS_SHA_512''\<rparr>)"
proof -
  have a: "kms_sign example_runtime (keyId example_config) m a = Inr (Some (example_signature m))" for m a
    by (simp add: example_runtime_def example_config_def)
  have "keyId example_config = ''alias/fdc3-signing''" "date_now example_runtime = 1700000000000"
    by (simp_all add: example_runtime_def example_config_def)
  with sign_forwards_any_algorithm [of example_runtime example_config example_context "''RSASSA_PSS_SHA_512''"]
  show ?thesis unfolding a by (simp add: getNodeAlgorithm_def)
qed

section \<open>Unsupported algorithms\<close>

text \<open>
  The claim C4 as it is written fails: with an algorithm outside the two supported ones
  and a key service that answers without key material, the error of the result does not
  name the algorithm.
\<close>

theorem verify_unsupported_algorithm_counterexample:
  "sc_algorithm (example_envelope ''alias/pending'' ''ED25519_SHA_512'')
     \<notin> {''RSASSA_PKCS1_V1_5_SHA_256'', ''ECDSA_SHA_256''} \<and>
   verify example_runtime (example_envelope ''alias/pending'' ''ED25519_SHA_512'') =
     Inr \<lparr>isValid = False, error = Some ''Could not retrieve public key from KMS'',
          vr_context = None\<rparr> \<and>
   \<not> sublist ''ED25519_SHA_512'' ''Could not retrieve public key from KMS''"
  by (simp add: verify_def verify_try_def example_runtime_def example_envelope_def
        sublist_Cons_right prefix_code)

text \<open>
  Claim C4, amended. The two identifiers \<^verbatim>\<open>RSASSA_PKCS1_V1_5_SHA_256\<close> and \<^verbatim>\<open>ECDSA_SHA_256\<close>
  are mapped to a digest name and every other identifier makes the mapping throw an
  error that names it. For an envelope with any other algorithm \<^verbatim>\<open>verify\<close> returns a
  result that is not valid and carries no context; when the key service has returned a
  public key, the error of that result is \<^verbatim>\<open>Verification error: Unsupported algorithm:\<close>
  followed by the algorithm value.
\<close>

theorem verify_unsupported_algorithm:
  "getNodeAlgorithm ''RSASSA_PKCS1_V1_5_SHA_256'' = Inr ''RSA-SHA256'' \<and>
   getNodeAlgorithm ''ECDSA_SHA_256'' = Inr ''sha256'' \<and>
   (a \<noteq> ''RSASSA_PKCS1_V1_5_SHA_256'' \<and> a \<noteq> ''ECDSA_SHA_256'' \<and> sc_algorithm sc = a \<longrightarrow>
      getNodeAlgorithm a = Inl (ErrorObject (''Unsupported algorithm: '' @ a)) \<and>
      (\<exists>r. verify rt sc = Inr r \<and> \<not> isValid r \<and> vr_context r = None \<and> error r \<noteq> None) \<and>
      (\<forall>pk. kms_get_public_key rt (sc_keyId sc) = Inr (Some pk) \<longrightarrow>
         verify rt sc =
           Inr \<lparr>isValid = False,
                error = Some (''Verification error: Unsupported algorithm: '' @ a),
                vr_context = None\<rparr>))"
  by (auto simp: verify_def verify_try_def getNodeAlgorithm_def Let_def
           split: sum.splits option.splits)

theorem verify_unsupported_algorithm_witness:
  "verify example_runtime (example_envelope ''alias/fdc3-signing'' ''ED25519_SHA_512'') =
     Inr \<lparr>isValid = False,
          error = Some ''Verification error: Unsupported algorithm: ED25519_SHA_512'',
          vr_context = None\<rparr>"
proof -
  have "kms_get_public_key example_runtime
          (sc_keyId (example_envelope ''alias/fdc3-signing'' ''ED25519_SHA_512'')) =
        Inr (Some example_key)"
    by (simp add: example_runtime_def example_envelope_def)
  moreover have "sc_algorithm (example_envelope ''alias/fdc3-signing'' ''ED25519_SHA_512'') =
        ''ED25519_SHA_512''"
    by (simp add: example_envelope_def)
  ultimately show ?thesis
    using verify_unsupported_algorithm
      [of "''ED25519_SHA_512''" "example_envelope ''alias/fdc3-signing'' ''ED25519_SHA_512''"
          example_runtime]
    by simp
qed

section \<open>Round trip\<close>

lemma canonicalizeContext_example:
  "canonicalizeContext (number_to_string example_runtime) example_context =
     [CHR ''{'', CHR 0x22] @ ''id'' @ [CHR 0x22] @ '':{'' @ [CHR 0x22] @ ''ticker'' @ [CHR 0x22]
       @ '':'' @ [CHR 0x22] @ ''AAPL'' @ [CHR 0x22] @ ''},'' @ [CHR 0x22] @ ''type'' @ [CHR 0x22]
       @ '':'' @ [CHR 0x22] @ ''fdc3.instrument'' @ [CHR 0x22] @ ''}''"
  by (simp add: canonicalizeContext_def example_context_def obj_set_def is_array_index_def
        is_digit_def QuoteJSONString_def quote_json_char_def)

lemma sign_example:
  "sign example_runtime example_config example_context None =
     Inr \<lparr>sc_context = example_context, sc_signature = ''MfsReyI='',
          sc_keyId = ''alias/fdc3-signing'', sc_timestamp = 1700000000000,
          sc_algorithm = ''RSASSA_PKCS1_V1_5_SHA_256''\<rparr>"
  unfolding sign_def sign_try_def Let_def canonicalizeContext_example
  by (simp add: example_runtime_def example_config_def algorithm_or_default_def
        default_algorithm_def utf8_encode_def utf8_char_def example_signature_def
        b64_def base64_table_def)

text \<open>
  Claim C1. When the key service signs the canonical bytes of the payload under the
  configured key and returns a public key under which the local verifier accepts that
  signature for those bytes, \<^verbatim>\<open>sign\<close> returns an envelope and \<^verbatim>\<open>verify\<close> of that envelope is
  valid and carries the payload that was given to \<^verbatim>\<open>sign\<close>. This holds for the default
  algorithm and for each algorithm the mapping supports.
\<close>

theorem sign_verify_round_trip:
  assumes alg: "getNodeAlgorithm (algorithm_or_default algorithm) = Inr nodeAlgorithm"
    and signs: "kms_sign rt (keyId config)
        (utf8_encode (canonicalizeContext (number_to_string rt) ctx))
        (algorithm_or_default algorithm) = Inr (Some sg)"
    and key: "kms_get_public_key rt (keyId config) = Inr (Some pk)"
    and valid: "crypto_verify rt nodeAlgorithm
        (utf8_encode (canonicalizeContext (number_to_string rt) ctx)) (derToPem pk) sg = Inr True"
  shows "\<exists>signedContext. sign rt config ctx algorithm = Inr signedContext \<and>
           verify rt signedContext = Inr \<lparr>isValid = True, error = None, vr_context = Some ctx\<rparr>"
  using assms
  by (simp add: sign_def sign_try_def verify_def verify_try_def Let_def base64_round_trip)

theorem sign_verify_round_trip_witness:
  "sign example_runtime example_config example_context None =
     Inr \<lparr>sc_context = example_context, sc_signature = ''MfsReyI='',
          sc_keyId = ''alias/fdc3-signing'', sc_timestamp = 1700000000000,
          sc_algorithm = ''RSASSA_PKCS1_V1_5_SHA_256''\<rparr> \<and>
   verify example_runtime
     \<lparr>sc_context = example_context, sc_signature = ''MfsReyI='',
      sc_keyId = ''alias/fdc3-signing'', sc_timestamp = 1700000000000,
      sc_algorithm = ''RSASSA_PKCS1_V1_5_SHA_256''\<rparr> =
     Inr \<lparr>isValid = True, error = None, vr_context = Some example_context\<rparr>"
proof -
  let ?m = "utf8_encode (canonicalizeContext (number_to_string example_runtime) example_context)"
  have a: "getNodeAlgorithm (algorithm_or_default None) = Inr ''RSA-SHA256''"
    by (simp add: getNodeAlgorithm_def algorithm_or_default_def default_algorithm_def)
  have b: "kms_sign example_runtime (keyId example_config) ?m (algorithm_or_default None) =
      Inr (Some (example_signature ?m))"
    by (simp add: example_runtime_def example_config_def)
  have c: "kms_get_public_key example_runtime (keyId example_config) = Inr (Some example_key)"
    by (simp add: example_runtime_def example_config_def)
  have d: "crypto_verify example_runtime ''RSA-SHA256'' ?m (derToPem example_key)
        (example_signature ?m) = Inr True"
    by (simp add: example_runtime_def)
  from sign_verify_round_trip [OF a b c d]
  obtain signedContext where
    "sign example_runtime example_config example_context None = Inr signedContext"
    "verify example_runtime signedContext =
       Inr \<lparr>isValid = True, error = None, vr_context = Some example_context\<rparr>"
    by blast
  with sign_example show ?thesis by simp
qed

section \<open>Key-format conversion\<close>

lemma take_drop_length_take: "take n xs @ drop (length (take n xs)) xs = xs"
  by (simp add: min_def)

lemma length_take_full: "drop (length (take n xs)) xs \<noteq> [] \<Longrightarrow> length (take n xs) = n"
  by (simp add: min_def split: if_splits)

lemma match_lines_plain:
  assumes "\<forall>c\<in>set s. \<not> is_line_terminator c"
  shows "concat (match_lines s) = s \<and>
         (\<forall>l\<in>set (match_lines s). 0 < length l \<and> length l \<le> 64) \<and>
         (\<forall>i. Suc i < length (match_lines s) \<longrightarrow> length (match_lines s ! i) = 64)"
  using assms
proof (induction s rule: match_lines.induct)
  case 1
  show ?case by (simp add: match_lines.simps(1))
next
  case (2 c cs)
  from "2.prems" have tw: "takeWhile (\<lambda>x. \<not> is_line_terminator x) (c # cs) = c # cs"
    by (simp add: takeWhile_eq_all_conv)
  from "2.prems" have nt: "\<not> is_line_terminator c" by simp
  define m where "m = take 64 (c # cs)"
  define r where "r = drop (length m) (c # cs)"
  have m_tw: "m = take 64 (takeWhile (\<lambda>x. \<not> is_line_terminator x) (c # cs))"
    unfolding m_def tw ..
  have len: "0 < length m \<and> length m \<le> 64"
    unfolding m_def by (simp only: length_take length_Cons) simp
  have split: "m @ r = c # cs"
    unfolding r_def m_def by (rule take_drop_length_take)
  have ml: "match_lines (c # cs) = m # match_lines r"
    unfolding r_def m_tw
    by (subst match_lines.simps(2)) (simp only: nt if_False Let_def)
  have "\<forall>x\<in>set r. \<not> is_line_terminator x"
    unfolding r_def using "2.prems" by (meson in_set_dropD)
  with "2.IH"(2) [OF nt m_tw] have IH: "concat (match_lines r) = r"
     "\<forall>l\<in>set (match_lines r). 0 < length l \<and> length l \<le> 64"
     "\<forall>i. Suc i < length (match_lines r) \<longrightarrow> length (match_lines r ! i) = 64"
    unfolding r_def by blast+
  have full: "length m = 64" if "match_lines r \<noteq> []"
  proof -
    from that have "r \<noteq> []" by (auto simp: match_lines.simps(1))
    then show ?thesis unfolding r_def m_def by (rule length_take_full)
  qed
  have a: "concat (match_lines (c # cs)) = c # cs"
    unfolding ml using IH(1) split by simp
  have b: "\<forall>l\<in>set (match_lines (c # cs)). 0 < length l \<and> length l \<le> 64"
    unfolding ml using IH(2) len by simp
  have c: "\<forall>i. Suc i < length (match_lines (c # cs)) \<longrightarrow> length (match_lines (c # cs) ! i) = 64"
  proof (intro allI impI)
    fix i assume i: "Suc i < length (match_lines (c # cs))"
    show "length (match_lines (c # cs) ! i) = 64"
    proof (cases i)
      case 0
      with i have "match_lines r \<noteq> []" unfolding ml by auto
      with full 0 show ?thesis unfolding ml by simp
    next
      case (Suc j)
      with i IH(3) show ?thesis unfolding ml by simp
    qed
  qed
  from a b c show ?case by blast
qed


lemma join_nonempty: "ls \<noteq> [] \<Longrightarrow> \<forall>l\<in>set ls. 0 < length l \<Longrightarrow> join sep ls \<noteq> []"
  by (induction sep ls rule: join.induct) auto

text \<open>
  Claim C9. For every binary key, \<^verbatim>\<open>derToPem\<close> gives the header line
  \<^verbatim>\<open>-----BEGIN PUBLIC KEY-----\<close>, the base64 text of the key folded into lines, and the
  footer line \<^verbatim>\<open>-----END PUBLIC KEY-----\<close>. The lines put together are the base64 text;
  every line has between 1 and 64 characters and no line break inside, and every line
  but the last has exactly 64. The function is total: there is no error case.
\<close>

theorem derToPem_format:
  "derToPem der =
     ''-----BEGIN PUBLIC KEY-----'' @ [CHR 0x0A]
       @ join [CHR 0x0A] (match_lines (base64_encode der)) @ [CHR 0x0A]
       @ ''-----END PUBLIC KEY-----'' \<and>
   concat (match_lines (base64_encode der)) = base64_encode der \<and>
   (\<forall>l\<in>set (match_lines (base64_encode der)).
      0 < length l \<and> length l \<le> 64 \<and> (\<forall>c\<in>set l. \<not> is_line_terminator c)) \<and>
   (\<forall>i. Suc i < length (match_lines (base64_encode der)) \<longrightarrow>
      length (match_lines (base64_encode der) ! i) = 64)"
proof -
  let ?b = "base64_encode der"
  have plain: "\<forall>c\<in>set ?b. \<not> is_line_terminator c"
    using base64_encode_no_newline by blast
  note ml = match_lines_plain [OF plain]
  from ml have cat: "concat (match_lines ?b) = ?b" by blast
  from ml have len: "\<forall>l\<in>set (match_lines ?b). 0 < length l \<and> length l \<le> 64" by blast
  from ml have full: "\<forall>i. Suc i < length (match_lines ?b) \<longrightarrow> length (match_lines ?b ! i) = 64"
    by blast
  have chars: "\<forall>l\<in>set (match_lines ?b). \<forall>c\<in>set l. \<not> is_line_terminator c"
  proof (intro ballI)
    fix l c assume "l \<in> set (match_lines ?b)" "c \<in> set l"
    then have "c \<in> set (concat (match_lines ?b))" by auto
    with cat plain show "\<not> is_line_terminator c" by simp
  qed
  have pem: "(if (if match_lines ?b = [] then [] else join [CHR 0x0A] (match_lines ?b)) = []
              then ?b else (if match_lines ?b = [] then [] else join [CHR 0x0A] (match_lines ?b)))
             = join [CHR 0x0A] (match_lines ?b)"
  proof (cases "match_lines ?b = []")
    case True
    with cat have "?b = []" by simp
    with True show ?thesis by simp
  next
    case False
    with len have "join [CHR 0x0A] (match_lines ?b) \<noteq> []" by (simp add: join_nonempty)
    with False show ?thesis by simp
  qed
  have "derToPem der =
     ''-----BEGIN PUBLIC KEY-----'' @ [CHR 0x0A]
       @ join [CHR 0x0A] (match_lines ?b) @ [CHR 0x0A] @ ''-----END PUBLIC KEY-----''"
    unfolding derToPem_def Let_def pem ..
  with cat len full chars show ?thesis by blast
qed


lemma base64_encode_example:
  "base64_encode (example_key @ example_key @ example_key @ example_key @ example_key) =
     ''MFkwEwYHKoZIzjBZMBMGByqGSM4wWTATBgcqhkjOMFkwEwYHKoZIzjBZMBMGByqGSM4=''"
  by (simp add: example_key_def b64_def base64_table_def)

lemma match_lines_example:
  "match_lines ''MFkwEwYHKoZIzjBZMBMGByqGSM4wWTATBgcqhkjOMFkwEwYHKoZIzjBZMBMGByqGSM4='' =
     [''MFkwEwYHKoZIzjBZMBMGByqGSM4wWTATBgcqhkjOMFkwEwYHKoZIzjBZMBMGByqG'', ''SM4='']"
  by (simp add: match_lines.simps is_line_terminator_def)

theorem derToPem_format_witness:
  "derToPem (example_key @ example_key @ example_key @ example_key @ example_key) =
     ''-----BEGIN PUBLIC KEY-----\<newline>MFkwEwYHKoZIzjBZMBMGByqGSM4wWTATBgcqhkjOMFkwEwYHKoZIzjBZMBMGByqG\<newline>SM4=\<newline>-----END PUBLIC KEY-----'' \<and>
   match_lines (base64_encode (example_key @ example_key @ example_key @ example_key @ example_key)) =
     [''MFkwEwYHKoZIzjBZMBMGByqGSM4wWTATBgcqhkjOMFkwEwYHKoZIzjBZMBMGByqG'', ''SM4=''] \<and>
   length ''MFkwEwYHKoZIzjBZMBMGByqGSM4wWTATBgcqhkjOMFkwEwYHKoZIzjBZMBMGByqG'' = 64 \<and>
   length ''SM4='' \<le> 64"
  using derToPem_format [of "example_key @ example_key @ example_key @ example_key @ example_key"]
  unfolding base64_encode_example match_lines_example
  by simp

section \<open>Canonicalization\<close>

subsection \<open>Assignments to an object\<close>

lemma keys_replace_value: "map fst (replace_value k v ps) = map fst ps"
  by (induction ps) auto

lemma set_replace_value: "set (replace_value k v ps) \<subseteq> insert (k, v) (set ps)"
  by (induction ps) auto

lemma set_insert_index: "set (insert_index k v ps) = insert (k, v) (set ps)"
  by (induction ps) auto

lemma set_obj_set: "set (obj_set k v ps) \<subseteq> insert (k, v) (set ps)"
  using set_replace_value [of k v ps]
  by (auto simp: obj_set_def set_insert_index)

lemma keys_obj_set: "set (map fst (obj_set k v ps)) \<subseteq> insert k (set (map fst ps))"
  using set_obj_set [of k v ps] by fastforce

lemma own_key_le_trans: "own_key_le a b \<Longrightarrow> own_key_le b c \<Longrightarrow> own_key_le a c"
  by (auto simp: own_key_le_def split: if_splits)

lemma insert_index_sorted:
  assumes "is_array_index k" and "sorted_wrt own_key_le (map fst ps)"
  shows "sorted_wrt own_key_le (map fst (insert_index k v ps))"
  using assms(2)
proof (induction ps)
  case Nil
  show ?case by simp
next
  case (Cons p ps)
  show ?case
  proof (cases "is_array_index (fst p) \<and> index_value (fst p) < index_value k")
    case True
    then have "own_key_le (fst p) k"
      by (simp add: own_key_le_def assms(1))
    with True Cons show ?thesis
      by (auto simp: set_insert_index)
  next
    case False
    then have first: "own_key_le k (fst p)"
      by (auto simp: own_key_le_def assms(1))
    have "own_key_le k x" if "x \<in> set (map fst ps)" for x
      using first Cons.prems that own_key_le_trans by auto
    with first False Cons.prems show ?thesis by auto
  qed
qed

lemma obj_set_sorted:
  assumes "sorted_wrt own_key_le (map fst ps)" and "\<forall>x\<in>set (map fst ps). x \<le> k"
  shows "sorted_wrt own_key_le (map fst (obj_set k v ps))"
proof -
  consider (proto) "k = ''__proto__''" | (present) "k \<noteq> ''__proto__''" "k \<in> set (map fst ps)"
    | (index) "k \<noteq> ''__proto__''" "k \<notin> set (map fst ps)" "is_array_index k"
    | (other) "k \<noteq> ''__proto__''" "k \<notin> set (map fst ps)" "\<not> is_array_index k"
    by blast
  then show ?thesis
  proof cases
    case proto
    with assms(1) show ?thesis by (simp add: obj_set_def)
  next
    case present
    with assms(1) show ?thesis by (simp add: obj_set_def keys_replace_value)
  next
    case index
    with insert_index_sorted [OF index(3) assms(1)] show ?thesis by (simp add: obj_set_def)
  next
    case other
    have "own_key_le x k" if "x \<in> set (map fst ps)" for x
    proof -
      from that assms(2) have "x \<le> k" by blast
      moreover from that other(2) have "x \<noteq> k" by blast
      ultimately have "x < k" by simp
      with other(3) show ?thesis by (simp add: own_key_le_def)
    qed
    with other assms(1) show ?thesis
      by (simp add: obj_set_def sorted_wrt_append)
  qed
qed

lemma fold_obj_set_sorted:
  assumes "sorted ks" and "sorted_wrt own_key_le (map fst acc)"
    and "\<forall>x\<in>set (map fst acc). \<forall>k\<in>set ks. x \<le> k"
  shows "sorted_wrt own_key_le
     (map fst (fold (\<lambda>key sorted. case look key of None \<Rightarrow> sorted
                                  | Some v \<Rightarrow> obj_set key (g v) sorted) ks acc))"
  using assms
proof (induction ks arbitrary: acc)
  case Nil
  then show ?case by simp
next
  case (Cons k ks)
  let ?acc = "case look k of None \<Rightarrow> acc | Some v \<Rightarrow> obj_set k (g v) acc"
  have s: "sorted_wrt own_key_le (map fst ?acc)"
    using Cons.prems(2,3) by (auto split: option.split intro!: obj_set_sorted)
  have keys: "set (map fst ?acc) \<subseteq> insert k (set (map fst acc))"
  proof (cases "look k")
    case None
    then show ?thesis by auto
  next
    case (Some v)
    with keys_obj_set [of k "g v" acc] show ?thesis by simp
  qed
  have b: "\<forall>x\<in>set (map fst ?acc). \<forall>k'\<in>set ks. x \<le> k'"
  proof (intro ballI)
    fix x k' assume x: "x \<in> set (map fst ?acc)" and k': "k' \<in> set ks"
    from x keys have "x = k \<or> x \<in> set (map fst acc)" by blast
    then show "x \<le> k'"
    proof
      assume "x = k"
      with Cons.prems(1) k' show ?thesis by simp
    next
      assume "x \<in> set (map fst acc)"
      with Cons.prems(3) k' show ?thesis by auto
    qed
  qed
  from Cons.prems(1) have "sorted ks" by simp
  from Cons.IH [OF this s b] show ?case by simp
qed

lemma fold_obj_set_values:
  "p \<in> set (fold (\<lambda>key sorted. case look key of None \<Rightarrow> sorted
                               | Some v \<Rightarrow> obj_set key (g v) sorted) ks acc) \<Longrightarrow>
   p \<in> set acc \<or> (\<exists>key\<in>set ks. \<exists>v. look key = Some v \<and> p = (key, g v))"
proof (induction ks arbitrary: acc)
  case Nil
  then show ?case by simp
next
  case (Cons k ks)
  let ?acc = "case look k of None \<Rightarrow> acc | Some v \<Rightarrow> obj_set k (g v) acc"
  from Cons.prems have "p \<in> set (fold (\<lambda>key sorted. case look key of None \<Rightarrow> sorted
                               | Some v \<Rightarrow> obj_set key (g v) sorted) ks ?acc)" by simp
  from Cons.IH [OF this]
  consider "p \<in> set ?acc" | "\<exists>key\<in>set ks. \<exists>v. look key = Some v \<and> p = (key, g v)" by blast
  then show ?case
  proof cases
    case 1
    then show ?thesis
      using set_obj_set by (fastforce split: option.splits)
  next
    case 2
    then show ?thesis by auto
  qed
qed

text \<open>What an object holds under a key after an assignment, and after all of them.\<close>

lemma lookup_replace_value:
  "k \<in> set (map fst ps) \<Longrightarrow>
   map_of (replace_value k v ps) x = (if x = k then Some v else map_of ps x)"
  by (induction ps) force+

lemma lookup_insert_index:
  "k \<notin> set (map fst ps) \<Longrightarrow>
   map_of (insert_index k v ps) x = (if x = k then Some v else map_of ps x)"
  by (induction ps) auto

lemma lookup_append:
  assumes "k \<notin> set (map fst ps)"
  shows "map_of (ps @ [(k, v)]) x = (if x = k then Some v else map_of ps x)"
proof -
  from assms have "map_of ps k = None" by (simp add: map_of_eq_None_iff)
  then show ?thesis by (cases "map_of ps x") (auto simp: map_add_def)
qed

lemma lookup_obj_set:
  "map_of (obj_set k v ps) x =
     (if k = ''__proto__'' then map_of ps x else if x = k then Some v else map_of ps x)"
  unfolding obj_set_def
  by (simp add: lookup_replace_value lookup_insert_index lookup_append
           del: set_map map_of_append)

lemma distinct_replace_value:
  "distinct (map fst ps) \<Longrightarrow> distinct (map fst (replace_value k v ps))"
  by (simp add: keys_replace_value)

lemma distinct_insert_index:
  "k \<notin> set (map fst ps) \<Longrightarrow> distinct (map fst ps) \<Longrightarrow>
   distinct (map fst (insert_index k v ps))"
proof (induction ps)
  case Nil
  show ?case by simp
next
  case (Cons p ps)
  have "set (map fst (insert_index k v ps)) = insert k (set (map fst ps))"
    by (simp add: set_insert_index)
  with Cons show ?case by auto
qed

lemma distinct_obj_set:
  "distinct (map fst ps) \<Longrightarrow> distinct (map fst (obj_set k v ps))"
  by (auto simp: obj_set_def distinct_replace_value distinct_insert_index)

lemma fold_obj_set_distinct:
  "distinct (map fst acc) \<Longrightarrow>
   distinct (map fst (fold (\<lambda>key sorted. case look key of None \<Rightarrow> sorted
                                  | Some v \<Rightarrow> obj_set key (g v) sorted) ks acc))"
proof (induction ks arbitrary: acc)
  case Nil
  then show ?case by simp
next
  case (Cons k ks)
  have "distinct (map fst (case look k of None \<Rightarrow> acc | Some v \<Rightarrow> obj_set k (g v) acc))"
    using Cons.prems by (simp add: distinct_obj_set split: option.split)
  from Cons.IH [OF this] show ?case by simp
qed

lemma fold_obj_set_lookup:
  assumes "k' \<noteq> ''__proto__''"
  shows "map_of (fold (\<lambda>key sorted. case look key of None \<Rightarrow> sorted
                                  | Some v \<Rightarrow> obj_set key (g v) sorted) ks acc) k' =
         (if k' \<in> set ks \<and> look k' \<noteq> None then map_option g (look k') else map_of acc k')"
proof (induction ks arbitrary: acc)
  case Nil
  show ?case by simp
next
  case (Cons k ks)
  let ?acc = "case look k of None \<Rightarrow> acc | Some v \<Rightarrow> obj_set k (g v) acc"
  have step: "map_of ?acc k' =
      (if k' = k \<and> look k' \<noteq> None then map_option g (look k') else map_of acc k')"
    using assms by (auto simp: lookup_obj_set split: option.split)
  have "map_of (fold (\<lambda>key sorted. case look key of None \<Rightarrow> sorted
                                  | Some v \<Rightarrow> obj_set key (g v) sorted) (k # ks) acc) k' =
        (if k' \<in> set ks \<and> look k' \<noteq> None then map_option g (look k') else map_of ?acc k')"
    using Cons.IH [of ?acc] by simp
  also have "\<dots> = (if k' \<in> set (k # ks) \<and> look k' \<noteq> None then map_option g (look k')
                    else map_of acc k')"
    unfolding step by auto
  finally show ?case .
qed

subsection \<open>Array indices\<close>

text \<open>Two array indices of the same value are the same string: a canonical numeral of
  \<open>n\<close> digits other than \<^verbatim>\<open>0\<close> lies between \<open>10 ^ (n - 1)\<close> and \<open>10 ^ n\<close>.\<close>

lemma digit_bounds: "is_digit c \<Longrightarrow> 48 \<le> (of_char c :: nat) \<and> (of_char c :: nat) \<le> 57"
  by (simp add: is_digit_def less_eq_char_def)

lemma digit_inject:
  assumes "is_digit c" "is_digit d" "(of_char c :: nat) - 48 = of_char d - 48"
  shows "c = d"
proof -
  from assms digit_bounds [of c] digit_bounds [of d] have "(of_char c :: nat) = of_char d"
    by arith
  then show ?thesis by simp
qed

lemma digits_bounds:
  "list_all is_digit k \<Longrightarrow>
   (acc::nat) * 10 ^ length k \<le> fold (\<lambda>c n. 10 * n + (of_char c - 48)) k acc \<and>
   fold (\<lambda>c n. 10 * n + (of_char c - 48)) k acc < (acc + 1) * 10 ^ length k"
proof (induction k arbitrary: acc)
  case Nil
  show ?case by simp
next
  case (Cons c k)
  let ?d = "(of_char c :: nat) - 48"
  let ?F = "fold (\<lambda>c n. 10 * n + (of_char c - 48)) k (10 * acc + ?d)"
  from Cons.prems have k: "list_all is_digit k" and "is_digit c" by simp_all
  with digit_bounds [of c] have d: "?d \<le> 9" by arith
  from Cons.IH [OF k, of "10 * acc + ?d"]
  have lo: "(10 * acc + ?d) * 10 ^ length k \<le> ?F"
    and hi: "?F < (10 * acc + ?d + 1) * 10 ^ length k" by simp_all
  have e1: "acc * 10 ^ length (c # k) = (10 * acc) * 10 ^ length k" by simp
  have "(10 * acc) * 10 ^ length k \<le> (10 * acc + ?d) * 10 ^ length k"
    by (rule mult_le_mono1) simp
  from this lo have a: "acc * 10 ^ length (c # k) \<le> ?F"
    unfolding e1 by (rule order_trans)
  have e2: "(acc + 1) * 10 ^ length (c # k) = (10 * (acc + 1)) * 10 ^ length k"
    by (simp add: algebra_simps)
  from d have "(10 * acc + ?d + 1) * 10 ^ length k \<le> (10 * (acc + 1)) * 10 ^ length k"
    by (intro mult_le_mono1) simp
  with hi have b: "?F < (acc + 1) * 10 ^ length (c # k)"
    unfolding e2 by (rule less_le_trans)
  from a b show ?case by simp
qed

lemma digits_inject:
  "length a = length b \<Longrightarrow> list_all is_digit a \<Longrightarrow> list_all is_digit b \<Longrightarrow>
   fold (\<lambda>c n. 10 * n + (of_char c - 48)) a (acc::nat) =
   fold (\<lambda>c n. 10 * n + (of_char c - 48)) b acc' \<Longrightarrow>
   acc = acc' \<and> a = b"
proof (induction a b arbitrary: acc acc' rule: list_induct2)
  case Nil
  then show ?case by simp
next
  case (Cons c a d b)
  from Cons.prems have da: "list_all is_digit a" and db: "list_all is_digit b"
    and c: "is_digit c" and d: "is_digit d" by simp_all
  from Cons.prems(3) have "fold (\<lambda>c n. 10 * n + (of_char c - 48)) a (10 * acc + (of_char c - 48)) =
      fold (\<lambda>c n. 10 * n + (of_char c - 48)) b (10 * acc' + (of_char d - 48))" by simp
  from Cons.IH [OF da db this]
  have e: "10 * acc + ((of_char c :: nat) - 48) = 10 * acc' + (of_char d - 48)" and ab: "a = b"
    by simp_all
  from e digit_bounds [OF c] digit_bounds [OF d]
  have "acc = acc'" and "(of_char c :: nat) - 48 = of_char d - 48" by arith+
  with digit_inject [OF c d] ab show ?case by simp
qed

lemma index_value_range:
  assumes "is_array_index k"
  shows "k = ''0'' \<and> index_value k = 0 \<or>
         10 ^ (length k - 1) \<le> index_value k \<and> index_value k < 10 ^ length k"
proof (cases "k = ''0''")
  case True
  then show ?thesis by (simp add: index_value_def)
next
  case False
  from assms obtain c k' where k: "k = c # k'" by (cases k) (auto simp: is_array_index_def)
  from assms k False have c: "is_digit c" "c \<noteq> CHR ''0''" and k': "list_all is_digit k'"
    by (auto simp: is_array_index_def)
  from assms have all: "list_all is_digit k" by (simp add: is_array_index_def)
  have "(of_char c :: nat) \<noteq> 48"
  proof
    assume "(of_char c :: nat) = 48"
    then have "(of_char c :: nat) = of_char CHR ''0''" by simp
    then have "c = CHR ''0''" by (simp only: of_char_eq_iff)
    with c show False by simp
  qed
  with digit_bounds [OF c(1)] have one: "1 \<le> (of_char c :: nat) - 48" by arith
  have "10 ^ length k' = 1 * (10::nat) ^ length k'" by simp
  also from one have "\<dots> \<le> ((of_char c :: nat) - 48) * 10 ^ length k'"
    by (rule mult_le_mono1)
  also from digits_bounds [OF k', of "(of_char c :: nat) - 48"]
  have "\<dots> \<le> index_value k" by (simp add: index_value_def k)
  finally have lo: "10 ^ (length k - 1) \<le> index_value k" by (simp add: k)
  from digits_bounds [OF all, of 0] have "index_value k < 10 ^ length k"
    by (simp add: index_value_def)
  with lo show ?thesis by simp
qed

lemma index_value_inject:
  assumes a: "is_array_index a" and b: "is_array_index b"
    and eq: "index_value a = index_value b"
  shows "a = b"
proof -
  have len: "length a = length b"
  proof -
    consider (za) "a = ''0''" | (zb) "b = ''0''" | (nz) "a \<noteq> ''0''" "b \<noteq> ''0''" by blast
    then show ?thesis
    proof cases
      case za
      with eq have "index_value b = 0" by (simp add: index_value_def)
      with index_value_range [OF b] za show ?thesis by auto
    next
      case zb
      with eq have "index_value a = 0" by (simp add: index_value_def)
      with index_value_range [OF a] zb show ?thesis by auto
    next
      case nz
      with index_value_range [OF a] index_value_range [OF b] eq
      have f1: "(10::nat) ^ (length a - 1) \<le> index_value b"
        and f2: "index_value b < 10 ^ length b"
        and f3: "(10::nat) ^ (length b - 1) \<le> index_value b"
        and f4: "index_value b < 10 ^ length a"
        by auto
      from f1 f2 have p1: "(10::nat) ^ (length a - 1) < 10 ^ length b" by (rule le_less_trans)
      from f3 f4 have p2: "(10::nat) ^ (length b - 1) < 10 ^ length a" by (rule le_less_trans)
      have "length a - 1 < length b" by (rule power_less_imp_less_exp [OF _ p1]) simp
      moreover have "length b - 1 < length a" by (rule power_less_imp_less_exp [OF _ p2]) simp
      ultimately have "length a - 1 < length b \<and> length b - 1 < length a" by simp
      then show ?thesis by arith
    qed
  qed
  from a b have "list_all is_digit a" "list_all is_digit b" by (simp_all add: is_array_index_def)
  from digits_inject [OF len this, of 0 0] eq show ?thesis by (simp add: index_value_def)
qed

subsection \<open>The order of the keys\<close>

lemma own_key_le_order:
  "sorted_wrt own_key_le ks \<Longrightarrow> distinct ks \<Longrightarrow> own_property_order ks"
proof (induction ks)
  case Nil
  show ?case by (simp add: own_property_order_def)
next
  case (Cons k ks)
  then have IH: "own_property_order ks" and le: "\<forall>x\<in>set ks. own_key_le k x"
    and s: "sorted_wrt own_key_le ks" and fresh: "k \<notin> set ks" by simp_all
  show ?case
  proof (cases "is_array_index k")
    case True
    have "index_value k < index_value y" if "y \<in> set (takeWhile is_array_index ks)" for y
    proof -
      from that have y: "y \<in> set ks" "is_array_index y"
        by (auto dest: set_takeWhileD)
      with le True have "index_value k \<le> index_value y" by (auto simp: own_key_le_def)
      moreover from y fresh have "k \<noteq> y" by blast
      with index_value_inject [OF True y(2)] have "index_value k \<noteq> index_value y" by blast
      ultimately show ?thesis by simp
    qed
    with True IH show ?thesis by (auto simp: own_property_order_def)
  next
    case False
    with le have none: "\<forall>x\<in>set ks. \<not> is_array_index x \<and> k < x"
      by (auto simp: own_key_le_def)
    have "sorted_wrt (<) ks"
    proof (rule sorted_wrt_mono_rel [OF _ s])
      fix x y assume "x \<in> set ks" "y \<in> set ks" "own_key_le x y"
      with none show "x < y" by (auto simp: own_key_le_def)
    qed
    with False none show ?thesis
      by (auto simp: own_property_order_def list_all_iff)
  qed
qed

lemma own_property_order_lexicographic:
  "own_property_order ks \<Longrightarrow> no_array_index ks \<Longrightarrow> lexicographic_order ks"
proof -
  assume a: "own_property_order ks" and b: "no_array_index ks"
  from b have "dropWhile is_array_index ks = ks"
    by (cases ks) (auto simp: no_array_index_def)
  with a show ?thesis by (simp add: own_property_order_def lexicographic_order_def)
qed


subsection \<open>Key order of the canonical form\<close>

lemma sortKeys_own_property_order: "every_object own_property_order (sortKeys j)"
proof (induction j rule: sortKeys.induct)
  case (5 xs)
  then show ?case by (simp add: list_all_iff)
next
  case (6 kvs)
  let ?r = "fold (\<lambda>key sorted. case map_of kvs key of None \<Rightarrow> sorted
                     | Some v \<Rightarrow> obj_set key (sortKeys v) sorted) (sort (map fst kvs)) []"
  have "sorted_wrt own_key_le (map fst ?r)"
    by (rule fold_obj_set_sorted) simp_all
  moreover have "distinct (map fst ?r)"
    by (rule fold_obj_set_distinct) simp
  ultimately have top: "own_property_order (map fst ?r)" by (rule own_key_le_order)
  have "every_object own_property_order (snd p)" if "p \<in> set ?r" for p
  proof -
    from fold_obj_set_values [OF that]
    obtain key v where "key \<in> set (sort (map fst kvs))" "map_of kvs key = Some v"
      "p = (key, sortKeys v)" by auto
    with "6.IH" show ?thesis by simp
  qed
  with top show ?case by (simp add: list_all_iff)
qed simp_all

lemma sortKeys_lexicographic:
  "every_object no_array_index j \<Longrightarrow> every_object lexicographic_order (sortKeys j)"
proof (induction j rule: sortKeys.induct)
  case (5 xs)
  then show ?case by (simp add: list_all_iff)
next
  case (6 kvs)
  let ?r = "fold (\<lambda>key sorted. case map_of kvs key of None \<Rightarrow> sorted
                     | Some v \<Rightarrow> obj_set key (sortKeys v) sorted) (sort (map fst kvs)) []"
  have entry: "\<exists>key v. key \<in> set (map fst kvs) \<and> map_of kvs key = Some v \<and> p = (key, sortKeys v)"
    if "p \<in> set ?r" for p
    using fold_obj_set_values [OF that] by auto
  have "sorted_wrt own_key_le (map fst ?r)"
    by (rule fold_obj_set_sorted) simp_all
  moreover have "distinct (map fst ?r)"
    by (rule fold_obj_set_distinct) simp
  ultimately have "own_property_order (map fst ?r)" by (rule own_key_le_order)
  moreover have "no_array_index (map fst ?r)"
    unfolding no_array_index_def list_all_iff
  proof
    fix k assume "k \<in> set (map fst ?r)"
    then obtain p where "p \<in> set ?r" "k = fst p" by auto
    with entry have "k \<in> set (map fst kvs)" by fastforce
    with "6.prems" show "\<not> is_array_index k"
      by (auto simp: no_array_index_def list_all_iff)
  qed
  ultimately have top: "lexicographic_order (map fst ?r)"
    by (rule own_property_order_lexicographic)
  have "every_object lexicographic_order (snd p)" if "p \<in> set ?r" for p
  proof -
    from entry [OF that] obtain key v where kv: "key \<in> set (map fst kvs)"
      "map_of kvs key = Some v" "p = (key, sortKeys v)" by blast
    from kv(2) have "(key, v) \<in> set kvs" by (rule map_of_SomeD)
    with "6.prems" have "every_object no_array_index v"
      by (auto simp: list_all_iff)
    with "6.IH" kv show ?thesis by simp
  qed
  with top show ?case by (simp add: list_all_iff)
qed simp_all

text \<open>
  The claim C7 as it is written fails where an object has keys that are array indices:
  \<^verbatim>\<open>sortKeys\<close> assigns \<^verbatim>\<open>10\<close> before \<^verbatim>\<open>9\<close>, and the object it builds enumerates \<^verbatim>\<open>9\<close> before
  \<^verbatim>\<open>10\<close>, which is not the lexicographic order.
\<close>

theorem canonical_key_order_counterexample:
  "sortKeys (JObj [(''10'', JStr ''a''), (''9'', JStr ''b'')] :: nat json) =
     JObj [(''9'', JStr ''b''), (''10'', JStr ''a'')] \<and>
   \<not> every_object lexicographic_order
       (sortKeys (JObj [(''10'', JStr ''a''), (''9'', JStr ''b'')] :: nat json))"
  by (simp add: obj_set_def is_array_index_def index_value_def is_digit_def
        lexicographic_order_def)

lemma sortKeys_object:
  "\<exists>out. sortKeys (JObj kvs) = JObj out \<and> distinct (map fst out) \<and>
         own_property_order (map fst out) \<and>
         (\<forall>k. k \<noteq> ''__proto__'' \<longrightarrow> map_of out k = map_option sortKeys (map_of kvs k))"
proof -
  let ?r = "fold (\<lambda>key sorted. case map_of kvs key of None \<Rightarrow> sorted
                     | Some v \<Rightarrow> obj_set key (sortKeys v) sorted) (sort (map fst kvs)) []"
  have d: "distinct (map fst ?r)"
    by (rule fold_obj_set_distinct) simp
  have "sorted_wrt own_key_le (map fst ?r)"
    by (rule fold_obj_set_sorted) simp_all
  from this d have o: "own_property_order (map fst ?r)" by (rule own_key_le_order)
  have l: "map_of ?r k = map_option sortKeys (map_of kvs k)" if "k \<noteq> ''__proto__''" for k
  proof (cases "map_of kvs k")
    case None
    with fold_obj_set_lookup [OF that, where look = "map_of kvs" and g = sortKeys
             and ks = "sort (map fst kvs)" and acc = "[]"]
    show ?thesis by simp
  next
    case (Some v)
    then have "k \<in> set (sort (map fst kvs))"
      by (metis map_of_eq_None_iff option.distinct(1) set_map set_sort)
    with Some fold_obj_set_lookup [OF that, where look = "map_of kvs" and g = sortKeys
             and ks = "sort (map fst kvs)" and acc = "[]"]
    show ?thesis by simp
  qed
  from d o l show ?thesis by simp
qed

text \<open>
  Claim C7, amended. \<^verbatim>\<open>canonicalizeContext\<close> serializes the value rewritten by \<^verbatim>\<open>sortKeys\<close>.
  An object is rewritten to an object in which no key occurs twice and which has, for
  every key other than \<^verbatim>\<open>__proto__\<close>, a property exactly when the input has one, holding
  the rewritten value of the input's property. Its keys are in the order of an object's
  own properties: the keys that are array indices first, by ascending value, then all
  other keys in ascending lexicographic order. This holds for every object at every
  nesting level; where no key of the input is an array index, all keys are in ascending
  lexicographic order. An array keeps its length and the order of its elements, each
  rewritten in turn; null, booleans, numbers and strings are returned unchanged.
\<close>

theorem canonical_key_order:
  "canonicalizeContext num j = JSON_stringify num (sortKeys j) \<and>
   every_object own_property_order (sortKeys j) \<and>
   (every_object no_array_index j \<longrightarrow> every_object lexicographic_order (sortKeys j)) \<and>
   (\<exists>out. sortKeys (JObj kvs) = JObj out \<and> distinct (map fst out) \<and>
          own_property_order (map fst out) \<and>
          (\<forall>k. k \<noteq> ''__proto__'' \<longrightarrow> map_of out k = map_option sortKeys (map_of kvs k))) \<and>
   (\<exists>ys. sortKeys (JArr xs) = JArr ys \<and> length ys = length xs \<and>
         (\<forall>i<length xs. ys ! i = sortKeys (xs ! i))) \<and>
   sortKeys JNull = JNull \<and> sortKeys (JBool b) = JBool b \<and>
   sortKeys (JNum n) = JNum n \<and> sortKeys (JStr s) = JStr s"
  using sortKeys_own_property_order [of j] sortKeys_lexicographic [of j] sortKeys_object [of kvs]
  by (simp add: canonicalizeContext_def)

lemma sortKeys_example:
  "sortKeys example_context =
     JObj [(''id'', JObj [(''ticker'', JStr ''AAPL'')]), (''type'', JStr ''fdc3.instrument'')]"
  by (simp add: example_context_def obj_set_def is_array_index_def is_digit_def)

lemma sortKeys_indices_example:
  "sortKeys (JObj [(''b'', JArr [JNum 2, JNum 1]), (''10'', JNull), (''a'', JBool True),
                   (''9'', JStr ''x'')] :: nat json) =
     JObj [(''9'', JStr ''x''), (''10'', JNull), (''a'', JBool True),
           (''b'', JArr [JNum 2, JNum 1])]"
  by (simp add: obj_set_def is_array_index_def index_value_def is_digit_def)

theorem canonical_key_order_witness:
  "every_object no_array_index example_context \<and>
   every_object lexicographic_order
     (JObj [(''id'', JObj [(''ticker'', JStr ''AAPL'')]), (''type'', JStr ''fdc3.instrument'')]
        :: nat json) \<and>
   every_object own_property_order
     (JObj [(''id'', JObj [(''ticker'', JStr ''AAPL'')]), (''type'', JStr ''fdc3.instrument'')]
        :: nat json) \<and>
   own_property_order [''9'', ''10'', ''a'', ''b''] \<and>
   map_of [(''9'', JStr ''x''), (''10'', JNull), (''a'', JBool True),
           (''b'', JArr [JNum 2, JNum (1::nat)])] ''b'' =
     Some (sortKeys (JArr [JNum 2, JNum 1]))"
proof -
  let ?kvs = "[(''b'', JArr [JNum 2, JNum 1]), (''10'', JNull), (''a'', JBool True),
               (''9'', JStr ''x'')] :: (string \<times> nat json) list"
  have a: "every_object no_array_index example_context"
    by (simp add: example_context_def no_array_index_def is_array_index_def is_digit_def)
  note inst = canonical_key_order
    [of "number_to_string example_runtime" example_context ?kvs "[]" True 0 "[]"]
  from inst have "every_object own_property_order (sortKeys example_context)"
    and "every_object no_array_index example_context \<longrightarrow>
         every_object lexicographic_order (sortKeys example_context)"
    by simp_all
  with a have first: "every_object lexicographic_order (sortKeys example_context)"
    "every_object own_property_order (sortKeys example_context)" by simp_all
  from inst obtain out where out: "sortKeys (JObj ?kvs) = JObj out"
    "own_property_order (map fst out)"
    "\<forall>k. k \<noteq> ''__proto__'' \<longrightarrow> map_of out k = map_option sortKeys (map_of ?kvs k)"
    by blast
  from out(1) have o: "out = [(''9'', JStr ''x''), (''10'', JNull), (''a'', JBool True),
           (''b'', JArr [JNum 2, JNum 1])]"
    unfolding sortKeys_indices_example by simp
  from out(3) have "map_of out ''b'' = map_option sortKeys (map_of ?kvs ''b'')" by simp
  then have "map_of out ''b'' = Some (sortKeys (JArr [JNum 2, JNum 1]))" by simp
  with out(2) a first show ?thesis unfolding o sortKeys_example by simp
qed

subsection \<open>Order invariance\<close>

lemma list_all2_lookup:
  assumes "list_all2 (\<lambda>p q. fst p = fst q \<and> R (snd p) (snd q)) xs ys"
    and "map_of xs k = Some v"
  shows "\<exists>v'. map_of ys k = Some v' \<and> R v v'"
  using assms
  by (induction xs ys rule: list_all2_induct) (auto split: if_splits)

lemma list_all2_keys:
  "list_all2 (\<lambda>p q. fst p = fst q \<and> R (snd p) (snd q)) xs ys \<Longrightarrow> map fst xs = map fst ys"
  by (induction xs ys rule: list_all2_induct) auto

lemma key_permuted_sortKeys:
  "key_permuted a b \<Longrightarrow> distinct_keys a \<Longrightarrow> sortKeys a = sortKeys b"
proof (induction rule: key_permuted.induct)
  case (Arr xs ys)
  from Arr.IH Arr.prems have "map sortKeys xs = map sortKeys ys"
    by (induction xs ys rule: list_all2_induct) auto
  then show ?case by simp
next
  case (Obj kvs mid kvs')
  let ?R = "\<lambda>x y. key_permuted x y \<and> (distinct_keys x \<longrightarrow> sortKeys x = sortKeys y)"
  from Obj.IH have rel: "list_all2 (\<lambda>p q. fst p = fst q \<and> ?R (snd p) (snd q)) kvs mid" .
  then have keys: "map fst kvs = map fst mid" by (rule list_all2_keys)
  from Obj.prems have dist: "distinct (map fst kvs)"
    and vals: "\<forall>p\<in>set kvs. distinct_keys (snd p)"
    by (simp_all add: list_all_iff)
  from Obj.hyps have mk: "mset (map fst mid) = mset (map fst kvs')" by (metis mset_map)
  with dist keys have dist': "distinct (map fst kvs')"
    by (metis mset_eq_imp_distinct_iff)
  from dist keys have distm: "distinct (map fst mid)" by simp
  from Obj.hyps have "set mid = set kvs'" by (rule mset_eq_setD)
  with distm dist' have look: "map_of mid = map_of kvs'"
    by (simp add: map_of_inject_set)
  have "mset (sort (map fst kvs)) = mset (map fst kvs')"
    using keys mk by simp
  then have sorted_keys: "sort (map fst kvs') = sort (map fst kvs)"
    by (rule properties_for_sort) simp
  have step: "(\<lambda>sorted. case map_of kvs key of None \<Rightarrow> sorted
                 | Some v \<Rightarrow> obj_set key (sortKeys v) sorted) =
              (\<lambda>sorted. case map_of kvs' key of None \<Rightarrow> sorted
                 | Some v \<Rightarrow> obj_set key (sortKeys v) sorted)"
    if "key \<in> set (sort (map fst kvs))" for key
  proof -
    from that obtain v where v: "map_of kvs key = Some v"
      by (metis set_sort map_of_eq_None_iff not_Some_eq set_map)
    then have "(key, v) \<in> set kvs" by (rule map_of_SomeD)
    with vals have dv: "distinct_keys v" by auto
    from list_all2_lookup [OF rel v] obtain v' where
      "map_of mid key = Some v'" "?R v v'" by blast
    with dv look v show ?thesis by simp
  qed
  have "fold (\<lambda>key sorted. case map_of kvs key of None \<Rightarrow> sorted
                 | Some v \<Rightarrow> obj_set key (sortKeys v) sorted) (sort (map fst kvs)) [] =
        fold (\<lambda>key sorted. case map_of kvs' key of None \<Rightarrow> sorted
                 | Some v \<Rightarrow> obj_set key (sortKeys v) sorted) (sort (map fst kvs')) []"
    unfolding sorted_keys
    by (rule fold_cong) (simp_all add: step)
  then show ?case by simp
qed simp_all

text \<open>
  Claim C2. For every value whose objects have no repeated key, and every value obtained
  from it by reordering the properties of any of its objects at any depth,
  \<^verbatim>\<open>canonicalizeContext\<close> gives the same string.
\<close>

theorem canonicalize_order_invariant:
  "distinct_keys a \<Longrightarrow> key_permuted a b \<Longrightarrow>
   canonicalizeContext num a = canonicalizeContext num b"
  by (simp add: canonicalizeContext_def key_permuted_sortKeys)

theorem canonicalize_order_invariant_witness:
  "canonicalizeContext (number_to_string example_runtime)
     (JObj [(''type'', JStr ''fdc3.instrument''),
            (''id'', JObj [(''ticker'', JStr ''AAPL''), (''ISIN'', JStr ''US0378331005'')]),
            (''tags'', JArr [JNum 2, JNum 1])]) =
   canonicalizeContext (number_to_string example_runtime)
     (JObj [(''tags'', JArr [JNum 2, JNum 1]),
            (''id'', JObj [(''ISIN'', JStr ''US0378331005''), (''ticker'', JStr ''AAPL'')]),
            (''type'', JStr ''fdc3.instrument'')])"
proof (rule canonicalize_order_invariant)
  show "distinct_keys (JObj [(''type'', JStr ''fdc3.instrument''),
            (''id'', JObj [(''ticker'', JStr ''AAPL''), (''ISIN'', JStr ''US0378331005'')]),
            (''tags'', JArr [JNum 2, JNum (1::nat)])])"
    by simp
  have inner: "key_permuted
      (JObj [(''ticker'', JStr ''AAPL''), (''ISIN'', JStr ''US0378331005'')])
      (JObj [(''ISIN'', JStr ''US0378331005''), (''ticker'', JStr ''AAPL'')] :: nat json)"
    by (rule key_permuted.Obj [where mid = "[(''ticker'', JStr ''AAPL''), (''ISIN'', JStr ''US0378331005'')]"])
       (simp_all add: key_permuted.intros)
  have arr: "key_permuted (JArr [JNum 2, JNum 1]) (JArr [JNum 2, JNum (1::nat)])"
    by (rule key_permuted.Arr) (simp add: key_permuted.intros)
  show "key_permuted
     (JObj [(''type'', JStr ''fdc3.instrument''),
            (''id'', JObj [(''ticker'', JStr ''AAPL''), (''ISIN'', JStr ''US0378331005'')]),
            (''tags'', JArr [JNum 2, JNum 1])])
     (JObj [(''tags'', JArr [JNum 2, JNum (1::nat)]),
            (''id'', JObj [(''ISIN'', JStr ''US0378331005''), (''ticker'', JStr ''AAPL'')]),
            (''type'', JStr ''fdc3.instrument'')])"
    by (rule key_permuted.Obj [where mid = "[(''type'', JStr ''fdc3.instrument''),
            (''id'', JObj [(''ISIN'', JStr ''US0378331005''), (''ticker'', JStr ''AAPL'')]),
            (''tags'', JArr [JNum 2, JNum 1])]"])
       (simp_all add: key_permuted.intros inner arr)
qed


end
